theory Spec2Isabelle
  imports Main "HOL-Library.Multiset" "HOL-Library.Sublist"
begin

section \<open>Response bodies and Go's JSON decoder\<close>

text \<open>
  \<^verbatim>\<open>fetchID\<close> lowercases the response body with \<^verbatim>\<open>bytes.ToLower\<close> and hands it to
  \<^verbatim>\<open>json.Unmarshal\<close>. Both are library functions; they are modelled on the token
  structure of the body:
  \<^item> a body is a \<open>json\<close> document; a string literal (an object key or a string value) is
    kept as its wire text, the bytes between the quotes, escapes included;
  \<^item> \<open>ToLower\<close> is \<^verbatim>\<open>bytes.ToLower\<close> on a text of ASCII bytes: it maps the bytes
    \<open>A\<close>..\<open>Z\<close> to \<open>a\<close>..\<open>z\<close>. On a JSON text this leaves the structure alone and
    lowercases the wire text of every literal; a keyword the body spells in upper case
    (\<open>NULL\<close>) is represented by the keyword it becomes. On a text with a byte outside
    ASCII \<^verbatim>\<open>bytes.ToLower\<close> maps rune by rune with the Unicode tables, which are not
    modelled: \<open>ascii_json\<close> says that a body is ASCII on the wire, and the properties
    that depend on what the decoder reads in a body are stated for such bodies;
  \<^item> \<open>unquote\<close> is the decoder's reading of a string literal: the escapes
    \<open>\" \\ \/ \b \f \n \r \t\<close> and \<open>\uXXXX\<close> (UTF-8 encoded, surrogate pairs joined, a
    lone surrogate replaced by U+FFFD); an unescaped quote, a control byte or any other
    escape is a syntax error (\<open>None\<close>). Through an escape an ASCII body holds any
    character.
\<close>

datatype json =
    JNull
  | JBool bool
  | JInt int
  | JReal
  | JStr string
  | JArr "json list"
  | JObj "(string \<times> json) list"

text \<open>
  \<open>JInt n\<close> is a number literal without fraction and exponent, \<open>JReal\<close> any other
  number literal (the decoder refuses it for an \<^verbatim>\<open>int\<close> field whatever its value).
\<close>

definition to_lower_byte :: "char \<Rightarrow> char" where
  "to_lower_byte c =
     (let n = (of_char c :: nat) in if 65 \<le> n \<and> n \<le> 90 then char_of (n + 32) else c)"

definition ToLower :: "string \<Rightarrow> string" where
  "ToLower s = map to_lower_byte s"

fun to_lower_json :: "json \<Rightarrow> json" where
  "to_lower_json (JStr s) = JStr (ToLower s)"
| "to_lower_json (JArr xs) = JArr (map to_lower_json xs)"
| "to_lower_json (JObj kvs) = JObj (map (\<lambda>kv. (ToLower (fst kv), to_lower_json (snd kv))) kvs)"
| "to_lower_json v = v"



definition hexval :: "char \<Rightarrow> nat option" where
  "hexval c =
     (let n = (of_char c :: nat) in
      if 48 \<le> n \<and> n \<le> 57 then Some (n - 48)
      else if 97 \<le> n \<and> n \<le> 102 then Some (n - 87)
      else if 65 \<le> n \<and> n \<le> 70 then Some (n - 55)
      else None)"

fun getu4 :: "string \<Rightarrow> nat option" where
  "getu4 (a # b # c # d # rest) =
     (case (hexval a, hexval b, hexval c, hexval d) of
        (Some x, Some y, Some z, Some w) \<Rightarrow> Some (((x * 16 + y) * 16 + z) * 16 + w)
      | _ \<Rightarrow> None)"
| "getu4 _ = None"

definition EncodeRune :: "nat \<Rightarrow> string" where
  "EncodeRune r =
     (if r < 128 then [char_of r]
      else if r < 2048 then [char_of (192 + r div 64), char_of (128 + r mod 64)]
      else if 55296 \<le> r \<and> r < 57344 then [char_of (239::nat), char_of (191::nat), char_of (189::nat)]
      else if r < 65536 then
        [char_of (224 + r div 4096), char_of (128 + (r div 64) mod 64), char_of (128 + r mod 64)]
      else
        [char_of (240 + r div 262144), char_of (128 + (r div 4096) mod 64),
         char_of (128 + (r div 64) mod 64), char_of (128 + r mod 64)])"

fun unquote :: "string \<Rightarrow> string option" where
  "unquote [] = Some []"
| "unquote (c # cs) =
     (if c = CHR 0x5C then
        (case cs of
           [] \<Rightarrow> None
         | e # rest \<Rightarrow>
             if e = CHR 0x22 \<or> e = CHR 0x5C \<or> e = CHR ''/'' then map_option ((#) e) (unquote rest)
             else if e = CHR ''b'' then map_option ((#) (CHR 0x08)) (unquote rest)
             else if e = CHR ''f'' then map_option ((#) (CHR 0x0C)) (unquote rest)
             else if e = CHR ''n'' then map_option ((#) (CHR 0x0A)) (unquote rest)
             else if e = CHR ''r'' then map_option ((#) (CHR 0x0D)) (unquote rest)
             else if e = CHR ''t'' then map_option ((#) (CHR 0x09)) (unquote rest)
             else if e = CHR ''u'' then
               (case getu4 rest of
                  None \<Rightarrow> None
                | Some rr \<Rightarrow>
                    (let after = drop 4 rest;
                         rr1 = (case after of
                                  b # u # more \<Rightarrow>
                                    if b = CHR 0x5C \<and> u = CHR ''u'' then getu4 more else None
                                | _ \<Rightarrow> None)
                     in case rr1 of
                          Some lo \<Rightarrow>
                            if 55296 \<le> rr \<and> rr < 56320 \<and> 56320 \<le> lo \<and> lo < 57344
                            then map_option ((@) (EncodeRune ((rr - 55296) * 1024 + (lo - 56320) + 65536)))
                                   (unquote (drop 6 after))
                            else map_option ((@) (EncodeRune rr)) (unquote after)
                        | None \<Rightarrow> map_option ((@) (EncodeRune rr)) (unquote after)))
             else None)
      else if c = CHR 0x22 \<or> (of_char c :: nat) < 32 then None
      else map_option ((#) c) (unquote cs))"

text \<open>
  The decoder checks the syntax of the whole text before it stores anything: one bad
  literal anywhere, also in a field the struct does not have, fails the call.
\<close>

fun valid_json :: "json \<Rightarrow> bool" where
  "valid_json (JStr s) = (unquote s \<noteq> None)"
| "valid_json (JArr xs) = (\<forall>x \<in> set xs. valid_json x)"
| "valid_json (JObj kvs) = (\<forall>kv \<in> set kvs. unquote (fst kv) \<noteq> None \<and> valid_json (snd kv))"
| "valid_json v = True"

subsection \<open>The structs\<close>

text \<open>
  \<^verbatim>\<open>CurbIDResponse\<close>; \<open>Next\<close> is the \<^verbatim>\<open>IDs\<close> slice of the \<^verbatim>\<open>NextWrapper\<close>. Go's
  \<^verbatim>\<open>int\<close> is 64 bits wide; the engine does no arithmetic on \<open>Depth\<close> and \<open>OrderIndex\<close>,
  and the decoder refuses a literal outside the range, so they are \<open>int\<close> with the range
  check written out in \<open>unmarshal_int\<close>.
\<close>

record CurbIDResponse =
  ID :: string
  Depth :: int
  Secret :: string
  Message :: string
  Next :: "string list"
  ParentID :: string
  OrderIndex :: int

text \<open>
  \<^verbatim>\<open>Secret\<close>, the entry of the tree map; its fields \<^verbatim>\<open>ID\<close> and \<^verbatim>\<open>OrderIndex\<close> carry the
  struct's name as a prefix, since the response has fields of the same names.
\<close>

record Secret =
  Secret_ID :: string
  Value :: string
  Secret_OrderIndex :: int

text \<open>Every failure of the program is a panic; the model keeps its cause.\<close>

datatype error =
    RequestError
  | TransportError
  | ReadError
  | BadStatus nat
  | SyntaxError
  | UnmarshalTypeError
  | NilPointer
  | UnexpectedMessage string
  | StackOverflow

subsection \<open>Decoding into the struct\<close>

text \<open>
  A JSON \<open>null\<close> leaves a string or an int as it was; a value of another kind is an
  \<^verbatim>\<open>UnmarshalTypeError\<close>. The decoder goes on after a type error and reports it at the
  end; since \<^verbatim>\<open>fetchID\<close> panics on every error, the model stops at the first.
\<close>

definition unmarshal_string :: "json \<Rightarrow> string \<Rightarrow> error + string" where
  "unmarshal_string v old =
     (case v of
        JStr s \<Rightarrow> (case unquote s of None \<Rightarrow> Inl SyntaxError | Some t \<Rightarrow> Inr t)
      | JNull \<Rightarrow> Inr old
      | _ \<Rightarrow> Inl UnmarshalTypeError)"

definition unmarshal_int :: "json \<Rightarrow> int \<Rightarrow> error + int" where
  "unmarshal_int v old =
     (case v of
        JInt n \<Rightarrow> if - (2 ^ 63) \<le> n \<and> n < 2 ^ 63 then Inr n else Inl UnmarshalTypeError
      | JNull \<Rightarrow> Inr old
      | _ \<Rightarrow> Inl UnmarshalTypeError)"

fun unmarshal_elems :: "json list \<Rightarrow> error + string list" where
  "unmarshal_elems [] = Inr []"
| "unmarshal_elems (x # xs) =
     (case unmarshal_string x [] of
        Inl e \<Rightarrow> Inl e
      | Inr s \<Rightarrow> (case unmarshal_elems xs of Inl e \<Rightarrow> Inl e | Inr ss \<Rightarrow> Inr (s # ss)))"

definition unmarshal_string_list :: "json \<Rightarrow> error + string list" where
  "unmarshal_string_list v =
     (case v of
        JArr xs \<Rightarrow> unmarshal_elems xs
      | JNull \<Rightarrow> Inr []
      | _ \<Rightarrow> Inl UnmarshalTypeError)"

text \<open>
  \<^verbatim>\<open>NextWrapper.UnmarshalJSON\<close>: the value is decoded as a list of strings first, and as
  one string when that fails.
\<close>

definition UnmarshalJSON :: "json \<Rightarrow> error + string list" where
  "UnmarshalJSON data =
     (case unmarshal_string_list data of
        Inr nextList \<Rightarrow> Inr nextList
      | Inl _ \<Rightarrow>
          (case unmarshal_string data [] of
             Inl err \<Rightarrow> Inl err
           | Inr nextString \<Rightarrow> Inr [nextString]))"

text \<open>
  The decoder matches an object key to a struct field by the field's tag, or by its name
  when it has no tag, ignoring case: the key and the name are compared after folding.
  Folding maps an ASCII letter to one case, and so it does the two characters outside
  ASCII whose case orbit holds an ASCII letter: U+017F, the long s (bytes \<open>C5 BF\<close>),
  folds to \<open>s\<close>, and U+212A, the Kelvin sign (bytes \<open>E2 84 AA\<close>), to \<open>k\<close>. So a key
  that spells \<open>secret\<close> with the long s reaches the field tagged \<open>secret\<close>. \<^verbatim>\<open>ParentID\<close> and
  \<^verbatim>\<open>OrderIndex\<close> are exported and untagged, so the keys \<open>parentid\<close> and
  \<open>orderindex\<close> of a body reach them. A key that matches no field is skipped.
\<close>

fun foldName :: "string \<Rightarrow> string" where
  "foldName (a # b # c # cs) =
     (if a = CHR 0xC5 \<and> b = CHR 0xBF then CHR ''s'' # foldName (c # cs)
      else if a = CHR 0xE2 \<and> b = CHR 0x84 \<and> c = CHR 0xAA then CHR ''k'' # foldName cs
      else to_lower_byte a # foldName (b # c # cs))"
| "foldName [a, b] =
     (if a = CHR 0xC5 \<and> b = CHR 0xBF then [CHR ''s''] else to_lower_byte a # foldName [b])"
| "foldName [a] = [to_lower_byte a]"
| "foldName [] = []"

definition set_field :: "string \<Rightarrow> json \<Rightarrow> CurbIDResponse \<Rightarrow> error + CurbIDResponse" where
  "set_field key v r =
     (let f = foldName key in
      if f = ''id'' then map_sum id (\<lambda>s. r\<lparr>ID := s\<rparr>) (unmarshal_string v (ID r))
      else if f = ''depth'' then map_sum id (\<lambda>n. r\<lparr>Depth := n\<rparr>) (unmarshal_int v (Depth r))
      else if f = ''secret'' then map_sum id (\<lambda>s. r\<lparr>Secret := s\<rparr>) (unmarshal_string v (Secret r))
      else if f = ''message'' then map_sum id (\<lambda>s. r\<lparr>Message := s\<rparr>) (unmarshal_string v (Message r))
      else if f = ''next'' then map_sum id (\<lambda>ids. r\<lparr>Next := ids\<rparr>) (UnmarshalJSON v)
      else if f = ''parentid'' then map_sum id (\<lambda>s. r\<lparr>ParentID := s\<rparr>) (unmarshal_string v (ParentID r))
      else if f = ''orderindex'' then map_sum id (\<lambda>n. r\<lparr>OrderIndex := n\<rparr>) (unmarshal_int v (OrderIndex r))
      else Inr r)"

fun unmarshal_object :: "(string \<times> json) list \<Rightarrow> CurbIDResponse \<Rightarrow> error + CurbIDResponse" where
  "unmarshal_object [] r = Inr r"
| "unmarshal_object (kv # kvs) r =
     (case unquote (fst kv) of
        None \<Rightarrow> Inl SyntaxError
      | Some key \<Rightarrow>
          (case set_field key (snd kv) r of
             Inl e \<Rightarrow> Inl e
           | Inr r' \<Rightarrow> unmarshal_object kvs r'))"

text \<open>
  \<^verbatim>\<open>json.Unmarshal(body, &idResponse)\<close> with \<^verbatim>\<open>idResponse\<close> a pointer to the struct,
  followed by the dereference \<^verbatim>\<open>*idResponse\<close>: a body \<open>null\<close> sets the pointer to nil
  and the dereference panics.
\<close>

definition Unmarshal :: "json \<Rightarrow> CurbIDResponse \<Rightarrow> error + CurbIDResponse" where
  "Unmarshal body r =
     (if \<not> valid_json body then Inl SyntaxError
      else case body of
             JObj kvs \<Rightarrow> unmarshal_object kvs r
           | JNull \<Rightarrow> Inl NilPointer
           | _ \<Rightarrow> Inl UnmarshalTypeError)"

section \<open>fetchID\<close>

text \<open>
  The network is a function from the session header and the identifier to what the
  exchange yields: \<^verbatim>\<open>http.NewRequest\<close> fails, \<^verbatim>\<open>client.Do\<close> fails, reading the body
  fails, or there is a status code and a body (\<open>None\<close>: a text that is not JSON).
  \<open>fetchID\<close> returns the value it sends to \<^verbatim>\<open>resultsChan\<close>, or the cause of its panic.
\<close>

datatype exchange =
    NewRequestFails
  | DoFails
  | ReadAllFails nat
  | Reply nat "json option"

text \<open>
  The struct \<^verbatim>\<open>fetchID\<close> hands to the decoder: \<^verbatim>\<open>new(CurbIDResponse)\<close> with the
  fragment set to \<open>no\<close> and the parent key and the order index of the call.
\<close>

definition fresh_response :: "string \<Rightarrow> int \<Rightarrow> CurbIDResponse" where
  "fresh_response parentID orderIndex =
     \<lparr>ID = [], Depth = 0, Secret = ''no'', Message = [], Next = [],
      ParentID = parentID, OrderIndex = orderIndex\<rparr>"

definition fetchID ::
  "(string \<Rightarrow> string \<Rightarrow> exchange) \<Rightarrow> string \<Rightarrow> string \<Rightarrow> string \<Rightarrow> int \<Rightarrow> error + CurbIDResponse" where
  "fetchID srv nid session parentID orderIndex =
     (case srv session nid of
        NewRequestFails \<Rightarrow> Inl RequestError
      | DoFails \<Rightarrow> Inl TransportError
      | ReadAllFails code \<Rightarrow> Inl ReadError
      | Reply code body \<Rightarrow>
          if code \<noteq> 200 then Inl (BadStatus code)
          else (case body of
                  None \<Rightarrow> Inl SyntaxError
                | Some doc \<Rightarrow> Unmarshal (to_lower_json doc) (fresh_response parentID orderIndex)))"

section \<open>readSecretsMap\<close>

text \<open>
  The walk prints a fragment that is neither empty nor \<open>no\<close> and recurses into the
  entry's identifier. Nothing bounds the recursion when the map has a cycle, so the model
  carries the depth the stack allows. A walk yields what it has printed and whether it
  has returned: \<open>False\<close> is the stack overflow that ends the process, with the
  fragments printed up to then already written, since \<^verbatim>\<open>fmt.Print\<close> writes each at
  once and before the recursive call. \<^verbatim>\<open>sort.Slice\<close> is not stable; \<open>sort_key\<close> is,
  and a property that depends on the order of two entries is stated for entries of
  different \<^verbatim>\<open>OrderIndex\<close>.
\<close>

definition rootID :: string where
  "rootID = ''ROOT''"

definition printed :: "Secret \<Rightarrow> string" where
  "printed secret = (if Value secret \<noteq> [] \<and> Value secret \<noteq> ''no'' then Value secret else [])"

fun range_loop :: "('a \<Rightarrow> string \<times> bool) \<Rightarrow> 'a list \<Rightarrow> string \<times> bool" where
  "range_loop body [] = ([], True)"
| "range_loop body (x # xs) =
     (case body x of
        (out, False) \<Rightarrow> (out, False)
      | (out, True) \<Rightarrow> (case range_loop body xs of (outs, returned) \<Rightarrow> (out @ outs, returned)))"

primrec readSecretsMap :: "nat \<Rightarrow> (string \<rightharpoonup> Secret list) \<Rightarrow> string \<Rightarrow> string \<times> bool" where
  "readSecretsMap 0 secretsMap nid = ([], False)"
| "readSecretsMap (Suc depth) secretsMap nid =
     (case secretsMap nid of
        None \<Rightarrow> ([], True)
      | Some secretList \<Rightarrow>
          range_loop
            (\<lambda>secret. case readSecretsMap depth secretsMap (Secret_ID secret) of
                         (out, returned) \<Rightarrow> (printed secret @ out, returned))
            (sort_key Secret_OrderIndex secretList))"

section \<open>crawl\<close>

text \<open>
  The process is the main goroutine, which runs the loop of \<^verbatim>\<open>crawl\<close>, and the
  goroutines it starts. A goroutine is at its call of \<^verbatim>\<open>fetchID\<close> (\<open>RootFetch\<close> for
  \<^verbatim>\<open>go fetchID(id, session, rootID, 0)\<close>, \<open>ChildFetch\<close> for the closure of the range
  loop) or, for the closure, at its \<^verbatim>\<open><-requestsChan\<close> (\<open>ChildRelease\<close>). The main
  goroutine is at the receive from \<^verbatim>\<open>resultsChan\<close>, at the send to \<^verbatim>\<open>requestsChan\<close> of
  an iteration of the range loop, or past the loop.

  A schedule is a list of events, each one step of one goroutine; a step that would block
  (a receive from an empty channel, a send to a full one) is not enabled (\<open>None\<close>). The
  schedule decides which fetch completes next, hence the order in which results arrive.
  A panic in any goroutine ends the process, and so does the return of \<^verbatim>\<open>crawl\<close>.

  \<open>received\<close> and \<open>spawned\<close> are history variables: the responses the loop has taken
  from \<^verbatim>\<open>resultsChan\<close> and stored, and the arguments \<open>(id, parentID, orderIndex)\<close> of
  every call of \<^verbatim>\<open>fetchID\<close> started so far. No step reads them.
\<close>

datatype goroutine =
    RootFetch string
  | ChildFetch string string int
  | ChildRelease

datatype pc =
    Receive
  | Range CurbIDResponse nat
  | Finished

record state =
  secretsMap :: "string \<rightharpoonup> Secret list"
  fetching :: int
  resultsChan :: "CurbIDResponse list"
  requestsChan :: nat
  goroutines :: "goroutine list"
  pc :: pc
  panicked :: "error option"
  stdout :: string
  received :: "CurbIDResponse list"
  spawned :: "(string \<times> string \<times> int) list"

datatype event = MainStep | FetchDone nat | Released nat

definition crawl_init :: "string \<Rightarrow> state" where
  "crawl_init nid =
     \<lparr>secretsMap = Map.empty, fetching = 1, resultsChan = [], requestsChan = 0,
      goroutines = [RootFetch nid], pc = Receive, panicked = None, stdout = [],
      received = [], spawned = [(nid, rootID, 0)]\<rparr>"

definition entry_of :: "CurbIDResponse \<Rightarrow> Secret" where
  "entry_of idResponse =
     \<lparr>Secret_ID = ID idResponse, Value = Secret idResponse, Secret_OrderIndex = OrderIndex idResponse\<rparr>"

text \<open>
  The end of an iteration of the outer loop, also reached by \<^verbatim>\<open>continue\<close>: the post
  statement \<^verbatim>\<open>fetching--\<close>, the test \<^verbatim>\<open>fetching > 0\<close>, and after the loop
  \<^verbatim>\<open>readSecretsMap(secretsMap, rootID)\<close>, the only place that prints.
\<close>

definition loop_post :: "nat \<Rightarrow> state \<Rightarrow> state" where
  "loop_post lim s =
     (let s1 = s\<lparr>fetching := fetching s - 1\<rparr> in
      if fetching s1 > 0 then s1\<lparr>pc := Receive\<rparr>
      else (case readSecretsMap lim (secretsMap s1) rootID of
              (out, False) \<Rightarrow> s1\<lparr>pc := Finished, stdout := out, panicked := Some StackOverflow\<rparr>
            | (out, True) \<Rightarrow> s1\<lparr>pc := Finished, stdout := out\<rparr>))"

text \<open>
  The body of the outer loop up to the test of the fragment: the entry of the response is
  appended to the slice the map holds for the response's \<^verbatim>\<open>ParentID\<close>. A key the map
  does not have reads as the nil slice.
\<close>

definition record_secret :: "CurbIDResponse \<Rightarrow> (string \<rightharpoonup> Secret list) \<Rightarrow> (string \<rightharpoonup> Secret list)" where
  "record_secret idResponse m =
     (let val = (case m (ParentID idResponse) of None \<Rightarrow> [] | Some l \<Rightarrow> l)
      in m(ParentID idResponse \<mapsto> val @ [entry_of idResponse]))"

definition collect :: "CurbIDResponse \<Rightarrow> CurbIDResponse list \<Rightarrow> state \<Rightarrow> state" where
  "collect idResponse rest s =
     s\<lparr>resultsChan := rest,
       secretsMap := record_secret idResponse (secretsMap s),
       received := received s @ [idResponse]\<rparr>"

text \<open>
  One iteration of the range loop: the send to \<^verbatim>\<open>requestsChan\<close> (enabled while fewer
  than 16 values are buffered), \<^verbatim>\<open>fetching++\<close>, and the start of the closure, which
  calls \<^verbatim>\<open>fetchID(id, session, idResponse.ID, index)\<close>.
\<close>

definition spawn_child :: "CurbIDResponse \<Rightarrow> nat \<Rightarrow> state \<Rightarrow> state" where
  "spawn_child idResponse index s =
     s\<lparr>requestsChan := requestsChan s + 1,
       fetching := fetching s + 1,
       goroutines := goroutines s @ [ChildFetch (Next idResponse ! index) (ID idResponse) (int index)],
       spawned := spawned s @ [(Next idResponse ! index, ID idResponse, int index)],
       pc := Range idResponse (Suc index)\<rparr>"

definition main_step :: "nat \<Rightarrow> state \<Rightarrow> state option" where
  "main_step lim s =
     (case pc s of
        Receive \<Rightarrow>
          (case resultsChan s of
             [] \<Rightarrow> None
           | idResponse # rest \<Rightarrow>
               if Message idResponse \<noteq> [] \<and> Depth idResponse \<noteq> 0
               then Some (s\<lparr>panicked := Some (UnexpectedMessage (Message idResponse))\<rparr>)
               else if Secret idResponse \<noteq> ''no'' then Some (loop_post lim (collect idResponse rest s))
               else Some ((collect idResponse rest s)\<lparr>pc := Range idResponse 0\<rparr>))
      | Range idResponse index \<Rightarrow>
          if index < length (Next idResponse) then
            (if requestsChan s < 16 then Some (spawn_child idResponse index s) else None)
          else Some (loop_post lim s)
      | Finished \<Rightarrow> None)"

definition remove_nth :: "nat \<Rightarrow> 'a list \<Rightarrow> 'a list" where
  "remove_nth k xs = take k xs @ drop (Suc k) xs"

text \<open>
  The goroutine at position \<open>k\<close> returns from \<^verbatim>\<open>fetchID\<close>: it has sent its result to
  \<^verbatim>\<open>resultsChan\<close> (capacity 8000), or it has panicked.
\<close>

definition fetch_done ::
  "(string \<Rightarrow> string \<Rightarrow> exchange) \<Rightarrow> string \<Rightarrow> nat \<Rightarrow> state \<Rightarrow> state option" where
  "fetch_done srv session k s =
     (if k < length (goroutines s) then
        (case goroutines s ! k of
           RootFetch nid \<Rightarrow>
             (case fetchID srv nid session rootID 0 of
                Inl e \<Rightarrow> Some (s\<lparr>panicked := Some e\<rparr>)
              | Inr idResponse \<Rightarrow>
                  if length (resultsChan s) < 8000
                  then Some (s\<lparr>resultsChan := resultsChan s @ [idResponse],
                               goroutines := remove_nth k (goroutines s)\<rparr>)
                  else None)
         | ChildFetch nid parentID index \<Rightarrow>
             (case fetchID srv nid session parentID index of
                Inl e \<Rightarrow> Some (s\<lparr>panicked := Some e\<rparr>)
              | Inr idResponse \<Rightarrow>
                  if length (resultsChan s) < 8000
                  then Some (s\<lparr>resultsChan := resultsChan s @ [idResponse],
                               goroutines := (goroutines s)[k := ChildRelease]\<rparr>)
                  else None)
         | ChildRelease \<Rightarrow> None)
      else None)"

definition released :: "nat \<Rightarrow> state \<Rightarrow> state option" where
  "released k s =
     (if k < length (goroutines s) \<and> goroutines s ! k = ChildRelease \<and> 0 < requestsChan s
      then Some (s\<lparr>requestsChan := requestsChan s - 1, goroutines := remove_nth k (goroutines s)\<rparr>)
      else None)"

definition step ::
  "(string \<Rightarrow> string \<Rightarrow> exchange) \<Rightarrow> string \<Rightarrow> nat \<Rightarrow> event \<Rightarrow> state \<Rightarrow> state option" where
  "step srv session lim ev s =
     (if panicked s \<noteq> None \<or> pc s = Finished then None
      else (case ev of
              MainStep \<Rightarrow> main_step lim s
            | FetchDone k \<Rightarrow> fetch_done srv session k s
            | Released k \<Rightarrow> released k s))"

fun run ::
  "(string \<Rightarrow> string \<Rightarrow> exchange) \<Rightarrow> string \<Rightarrow> nat \<Rightarrow> event list \<Rightarrow> state \<Rightarrow> state option" where
  "run srv session lim [] s = Some s"
| "run srv session lim (ev # evs) s =
     (case step srv session lim ev s of None \<Rightarrow> None | Some s' \<Rightarrow> run srv session lim evs s')"

text \<open>
  \<open>crawl srv nid session lim evs\<close> is the state of the process after the schedule
  \<open>evs\<close>, or \<open>None\<close> when the schedule asks for a step that is not enabled.
\<close>

definition crawl ::
  "(string \<Rightarrow> string \<Rightarrow> exchange) \<Rightarrow> string \<Rightarrow> string \<Rightarrow> nat \<Rightarrow> event list \<Rightarrow> state option" where
  "crawl srv nid session lim evs = run srv session lim evs (crawl_init nid)"

section \<open>Notions the properties are stated with\<close>

subsection \<open>Bodies\<close>

text \<open>
  A key of the body reaches a field when the decoder, reading the lowercased body, stores
  the value of the key in it: the \<^verbatim>\<open>next\<close> field, the \<^verbatim>\<open>secret\<close> field, or one of
  \<^verbatim>\<open>ParentID\<close> and \<^verbatim>\<open>OrderIndex\<close>, the two fields \<^verbatim>\<open>fetchID\<close> fills from its
  arguments before decoding.
\<close>

definition is_next_key :: "string \<Rightarrow> bool" where
  "is_next_key k = (case unquote (ToLower k) of None \<Rightarrow> False | Some key \<Rightarrow> foldName key = ''next'')"







text \<open>
  The two wire forms of one child: \<open>next_as_list\<close> rewrites a bare string under a key
  that reaches the \<^verbatim>\<open>next\<close> field into the list of that one string, and
  \<open>srv_next_as_list\<close> is the network that answers every fetch in the rewritten form.
\<close>

definition as_list :: "string \<times> json \<Rightarrow> string \<times> json" where
  "as_list kv = (case snd kv of JStr x \<Rightarrow> if is_next_key (fst kv) then (fst kv, JArr [JStr x]) else kv | _ \<Rightarrow> kv)"

definition next_as_list :: "json \<Rightarrow> json" where
  "next_as_list doc = (case doc of JObj kvs \<Rightarrow> JObj (map as_list kvs) | _ \<Rightarrow> doc)"

definition srv_next_as_list :: "(string \<Rightarrow> string \<Rightarrow> exchange) \<Rightarrow> string \<Rightarrow> string \<Rightarrow> exchange" where
  "srv_next_as_list srv session nid =
     (case srv session nid of
        Reply code (Some doc) \<Rightarrow> Reply code (Some (next_as_list doc))
      | other \<Rightarrow> other)"



subsection \<open>Goroutines, fetches and entries\<close>

text \<open>
  A goroutine at its call of \<^verbatim>\<open>fetchID\<close> is a fetch in flight, with the arguments of
  the call; a closure of the range loop holds one value of \<^verbatim>\<open>requestsChan\<close> from
  before its start until its \<^verbatim>\<open><-requestsChan\<close>.
\<close>

fun args_of :: "goroutine \<Rightarrow> (string \<times> string \<times> int) list" where
  "args_of (RootFetch nid) = [(nid, rootID, 0)]"
| "args_of (ChildFetch nid parentID index) = [(nid, parentID, index)]"
| "args_of ChildRelease = []"

fun is_fetch :: "goroutine \<Rightarrow> bool" where
  "is_fetch ChildRelease = False"
| "is_fetch g = True"

fun is_root :: "goroutine \<Rightarrow> bool" where
  "is_root (RootFetch nid) = True"
| "is_root g = False"

fun holds_slot :: "goroutine \<Rightarrow> bool" where
  "holds_slot (RootFetch nid) = False"
| "holds_slot g = True"

definition in_flight :: "state \<Rightarrow> nat" where
  "in_flight s = length (filter is_fetch (goroutines s))"

definition slot_holders :: "state \<Rightarrow> nat" where
  "slot_holders s = length (filter holds_slot (goroutines s))"






subsection \<open>Invariants of the steps\<close>

text \<open>
  The accounting of \<^verbatim>\<open>requestsChan\<close>: its buffer holds one value per closure that has
  not yet received from it, never more than 16, and the root fetch, which sends none, is
  in flight only while there is no other goroutine.
\<close>

definition inv_slots :: "state \<Rightarrow> bool" where
  "inv_slots s \<longleftrightarrow>
     requestsChan s = slot_holders s \<and> requestsChan s \<le> 16 \<and>
     ((\<exists>g \<in> set (goroutines s). is_root g) \<longrightarrow>
        length (goroutines s) = 1 \<and> resultsChan s = [] \<and> pc s = Receive)"










subsection \<open>Servers and schedules\<close>

text \<open>
  The trees the properties are tried on, each with schedules that complete the
  traversal. \<open>srv_scalar\<close>: one child given as a bare string. \<open>srv_two\<close>: two leaves,
  the first listing a child of its own; \<open>evs_two_reversed\<close> completes the second leaf
  first. \<open>srv_other\<close>: a root that reports another id than the one requested.
  \<open>srv_message_on_child\<close>, \<open>srv_message_on_root\<close>: a message on the second response,
  without a depth, and on the first, with depth 1. \<open>srv_failing\<close>: the second leaf
  answers with status 500.
\<close>

definition srv_scalar :: "string \<Rightarrow> string \<Rightarrow> exchange" where
  "srv_scalar session nid =
     (if nid = ''start'' then Reply 200 (Some (JObj [(''id'', JStr ''start''), (''next'', JStr ''a'')]))
      else if nid = ''a'' then Reply 200 (Some (JObj [(''id'', JStr ''a''), (''secret'', JStr ''Z'')]))
      else DoFails)"

definition evs_scalar :: "event list" where
  "evs_scalar = [FetchDone 0, MainStep, MainStep, MainStep, FetchDone 0, MainStep]"

definition srv_two :: "string \<Rightarrow> string \<Rightarrow> exchange" where
  "srv_two session nid =
     (if nid = ''start'' then
        Reply 200 (Some (JObj [(''id'', JStr ''start''), (''secret'', JStr ''no''), (''next'', JArr [JStr ''a'', JStr ''b''])]))
      else if nid = ''a'' then Reply 200 (Some (JObj [(''id'', JStr ''a''), (''secret'', JStr ''x''), (''next'', JArr [JStr ''c'']) ]))
      else if nid = ''b'' then Reply 200 (Some (JObj [(''id'', JStr ''b''), (''secret'', JStr ''y'')]))
      else DoFails)"



definition evs_one_child :: "event list" where
  "evs_one_child = [FetchDone 0, MainStep, MainStep, MainStep, FetchDone 0, MainStep]"

definition srv_message_on_child :: "string \<Rightarrow> string \<Rightarrow> exchange" where
  "srv_message_on_child session nid =
     (if nid = ''start'' then
        Reply 200 (Some (JObj [(''id'', JStr ''start''), (''secret'', JStr ''no''), (''next'', JArr [JStr ''a''])]))
      else if nid = ''a'' then
        Reply 200 (Some (JObj [(''id'', JStr ''a''), (''secret'', JStr ''x''), (''message'', JStr ''hello'')]))
      else DoFails)"

definition srv_message_on_root :: "string \<Rightarrow> string \<Rightarrow> exchange" where
  "srv_message_on_root session nid =
     (if nid = ''start'' then
        Reply 200 (Some (JObj [(''id'', JStr ''start''), (''depth'', JInt 1), (''message'', JStr ''hi''),
                                (''secret'', JStr ''no''), (''next'', JArr [JStr ''a''])]))
      else DoFails)"













section \<open>The decoder\<close>


lemma UnmarshalJSON_scalar: "unquote x = Some v \<Longrightarrow> UnmarshalJSON (JStr x) = Inr [v]"
  by (simp add: UnmarshalJSON_def unmarshal_string_list_def unmarshal_string_def)

lemma UnmarshalJSON_single: "unquote x = Some v \<Longrightarrow> UnmarshalJSON (JArr [JStr x]) = Inr [v]"
  by (simp add: UnmarshalJSON_def unmarshal_string_list_def unmarshal_string_def)

lemma set_field_next_forms:
  assumes "foldName key = ''next''" and "unquote x \<noteq> None"
  shows "set_field key (JArr [JStr x]) r = set_field key (JStr x) r"
proof -
  from assms(2) obtain v where v: "unquote x = Some v" by blast
  show ?thesis
    using assms(1) by (simp add: set_field_def UnmarshalJSON_scalar [OF v] UnmarshalJSON_single [OF v])
qed

lemma to_lower_as_list:
  "(\<lambda>kv. (ToLower (fst kv), to_lower_json (snd kv))) (as_list kv) =
     (case snd kv of
        JStr x \<Rightarrow> if is_next_key (fst kv) then (ToLower (fst kv), JArr [JStr (ToLower x)])
                  else (ToLower (fst kv), JStr (ToLower x))
      | v \<Rightarrow> (ToLower (fst kv), to_lower_json v))"
  by (cases kv; cases "snd kv") (auto simp: as_list_def)

lemma valid_as_list:
  "(unquote (fst ((\<lambda>kv. (ToLower (fst kv), to_lower_json (snd kv))) (as_list kv))) \<noteq> None \<and>
    valid_json (snd ((\<lambda>kv. (ToLower (fst kv), to_lower_json (snd kv))) (as_list kv)))) =
   (unquote (ToLower (fst kv)) \<noteq> None \<and> valid_json (to_lower_json (snd kv)))"
  by (cases kv; cases "snd kv") (auto simp: as_list_def)

lemma unmarshal_object_as_list:
  assumes "\<forall>kv \<in> set kvs. valid_json (to_lower_json (snd kv))"
  shows "unmarshal_object (map (\<lambda>kv. (ToLower (fst (as_list kv)), to_lower_json (snd (as_list kv)))) kvs) r =
         unmarshal_object (map (\<lambda>kv. (ToLower (fst kv), to_lower_json (snd kv))) kvs) r"
  using assms
proof (induction kvs arbitrary: r)
  case Nil
  then show ?case by simp
next
  case (Cons kv kvs)
  obtain k v where kv: "kv = (k, v)" by (cases kv)
  have IH: "\<And>r. unmarshal_object (map (\<lambda>kv. (ToLower (fst (as_list kv)), to_lower_json (snd (as_list kv)))) kvs) r =
         unmarshal_object (map (\<lambda>kv. (ToLower (fst kv), to_lower_json (snd kv))) kvs) r"
    using Cons by simp
  show ?case
  proof (cases "\<exists>x. v = JStr x \<and> is_next_key k")
    case True
    then obtain x where x: "v = JStr x" and nk: "is_next_key k" by blast
    from nk obtain key where key: "unquote (ToLower k) = Some key" "foldName key = ''next''"
      by (auto simp: is_next_key_def split: option.splits)
    have vx: "unquote (ToLower x) \<noteq> None"
      using Cons.prems by (simp add: kv x)
    have "as_list kv = (k, JArr [JStr x])"
      by (simp add: as_list_def kv x nk)
    then show ?thesis
      using set_field_next_forms [OF key(2) vx] by (simp add: kv x key IH split: sum.splits)
  next
    case False
    then have "as_list kv = kv"
      by (cases v) (auto simp: as_list_def kv)
    then show ?thesis
      by (simp add: IH split: sum.splits option.splits)
  qed
qed

lemma Unmarshal_next_as_list:
  "Unmarshal (to_lower_json (next_as_list doc)) r = Unmarshal (to_lower_json doc) r"
proof (cases doc)
  case (JObj kvs)
  have v: "valid_json (to_lower_json (next_as_list doc)) = valid_json (to_lower_json doc)"
    using valid_as_list by (simp add: JObj next_as_list_def)
  show ?thesis
  proof (cases "valid_json (to_lower_json doc)")
    case True
    then have "\<forall>kv \<in> set kvs. valid_json (to_lower_json (snd kv))"
      by (simp add: JObj)
    from unmarshal_object_as_list [OF this] show ?thesis
      using v True by (simp add: Unmarshal_def JObj next_as_list_def comp_def)
  next
    case False
    then show ?thesis
      using v by (simp add: Unmarshal_def)
  qed
qed (simp_all add: next_as_list_def)

lemma fetchID_next_as_list:
  "fetchID (srv_next_as_list srv) nid session parentID orderIndex = fetchID srv nid session parentID orderIndex"
  by (simp add: fetchID_def srv_next_as_list_def Unmarshal_next_as_list
           split: exchange.splits option.splits)

lemma run_cong_fetchID:
  assumes "\<And>nid p i. fetchID srv' nid session p i = fetchID srv nid session p i"
  shows "run srv' session lim evs s = run srv session lim evs s"
proof (induction evs arbitrary: s)
  case Nil
  then show ?case by simp
next
  case (Cons ev evs)
  have "step srv' session lim ev s = step srv session lim ev s"
    by (cases ev) (simp_all add: step_def fetch_done_def assms split: goroutine.splits)
  then show ?case
    using Cons.IH by (simp split: option.splits)
qed

text \<open>
  C7. A \<^verbatim>\<open>next\<close> field given as the bare string \<open>x\<close> and one given as the list of the
  single string \<open>x\<close> decode to the same one-element sequence; a fetch answered in either
  form sends the same response to the loop, and the whole traversal is the same under
  every schedule.
\<close>

theorem next_scalar_same_as_single_list:
  "(unquote x = Some v \<longrightarrow>
      UnmarshalJSON (JStr x) = Inr [v] \<and> UnmarshalJSON (JArr [JStr x]) = Inr [v]) \<and>
   fetchID (srv_next_as_list srv) nid session parentID orderIndex =
     fetchID srv nid session parentID orderIndex \<and>
   crawl (srv_next_as_list srv) nid session lim evs = crawl srv nid session lim evs"
  using UnmarshalJSON_scalar UnmarshalJSON_single fetchID_next_as_list
    run_cong_fetchID [of "srv_next_as_list srv" session srv, OF fetchID_next_as_list]
  by (simp add: crawl_def)

theorem next_scalar_same_as_single_list_witness:
  "unquote ''a'' = Some ''a'' \<and>
   UnmarshalJSON (JStr ''a'') = Inr [''a''] \<and> UnmarshalJSON (JArr [JStr ''a'']) = Inr [''a''] \<and>
   crawl (srv_next_as_list srv_scalar) ''start'' ''s'' 10 evs_scalar =
     crawl srv_scalar ''start'' ''s'' 10 evs_scalar \<and>
   map_option stdout (crawl srv_scalar ''start'' ''s'' 10 evs_scalar) = Some ''z''"
proof -
  have a: "unquote ''a'' = Some ''a''"
    by code_simp
  have b: "map_option stdout (crawl srv_scalar ''start'' ''s'' 10 evs_scalar) = Some ''z''"
    by code_simp
  note t = next_scalar_same_as_single_list
    [of "''a''" "''a''" srv_scalar "''start''" "''s''" rootID 0 10 evs_scalar]
  from t a b show ?thesis
    by blast
qed

section \<open>Lowercasing the body\<close>

lemma of_char_to_lower_byte:
  "(of_char (to_lower_byte c) :: nat) =
     (if 65 \<le> (of_char c :: nat) \<and> (of_char c :: nat) \<le> 90 then of_char c + 32 else of_char c)"
  by (simp add: to_lower_byte_def Let_def)

lemma char_eq_nat: "(c = d) = ((of_char c :: nat) = of_char d)"
  by simp

lemma to_lower_byte_high: "128 \<le> (of_char d :: nat) \<Longrightarrow> (to_lower_byte c = d) = (c = d)"
  by (simp add: char_eq_nat [of _ d] of_char_to_lower_byte del: of_char_eq_iff)

lemma to_lower_byte_backslash [simp]: "(to_lower_byte c = CHR 0x5C) = (c = CHR 0x5C)"
  by (simp add: char_eq_nat [of _ "CHR 0x5C"] of_char_to_lower_byte del: of_char_eq_iff)

lemma to_lower_byte_quote [simp]: "(to_lower_byte c = CHR 0x22) = (c = CHR 0x22)"
  by (simp add: char_eq_nat [of _ "CHR 0x22"] of_char_to_lower_byte del: of_char_eq_iff)

lemma to_lower_byte_control [simp]: "((of_char (to_lower_byte c) :: nat) < 32) = ((of_char c :: nat) < 32)"
  by (simp add: of_char_to_lower_byte)

lemma to_lower_byte_idem [simp]: "to_lower_byte (to_lower_byte c) = to_lower_byte c"
  by (simp add: char_eq_nat [of "to_lower_byte (to_lower_byte c)"] of_char_to_lower_byte del: of_char_eq_iff)

lemma foldName_ToLower [simp]: "foldName (ToLower s) = foldName s"
  by (induction s rule: foldName.induct) (simp_all add: ToLower_def to_lower_byte_high)

lemma ToLower_idem [simp]: "ToLower (ToLower s) = ToLower s"
  by (simp add: ToLower_def)

lemma ToLower_Nil [simp]: "ToLower [] = []"
  by (simp add: ToLower_def)

lemma ToLower_no [simp]: "ToLower ''no'' = ''no''"
  by (simp add: ToLower_def to_lower_byte_def)

lemma ToLower_backslash [simp]: "(CHR 0x5C \<in> set (ToLower s)) = (CHR 0x5C \<in> set s)"
proof -
  have "(CHR 0x5C \<in> set (ToLower s)) = (\<exists>c \<in> set s. to_lower_byte c = CHR 0x5C)"
    unfolding ToLower_def set_map image_iff by (metis (full_types))
  then show ?thesis
    by simp
qed


















section \<open>Steps of the process\<close>

lemma loop_post_fields [simp]:
  "secretsMap (loop_post lim s) = secretsMap s"
  "resultsChan (loop_post lim s) = resultsChan s"
  "requestsChan (loop_post lim s) = requestsChan s"
  "goroutines (loop_post lim s) = goroutines s"
  "received (loop_post lim s) = received s"
  "spawned (loop_post lim s) = spawned s"
  "fetching (loop_post lim s) = fetching s - 1"
  by (simp_all add: loop_post_def Let_def split: prod.splits bool.splits)



lemma loop_post_panicked:
  "panicked (loop_post lim s) =
     (if fetching s - 1 > 0 \<or> snd (readSecretsMap lim (secretsMap s) rootID) then panicked s
      else Some StackOverflow)"
  by (simp add: loop_post_def Let_def split: prod.splits bool.splits)

lemma collect_fields [simp]:
  "secretsMap (collect r rest s) = record_secret r (secretsMap s)"
  "resultsChan (collect r rest s) = rest"
  "requestsChan (collect r rest s) = requestsChan s"
  "goroutines (collect r rest s) = goroutines s"
  "received (collect r rest s) = received s @ [r]"
  "spawned (collect r rest s) = spawned s"
  "fetching (collect r rest s) = fetching s"
  "pc (collect r rest s) = pc s"
  "panicked (collect r rest s) = panicked s"
  "stdout (collect r rest s) = stdout s"
  by (simp_all add: collect_def)

lemma spawn_child_fields [simp]:
  "secretsMap (spawn_child r i s) = secretsMap s"
  "resultsChan (spawn_child r i s) = resultsChan s"
  "requestsChan (spawn_child r i s) = requestsChan s + 1"
  "goroutines (spawn_child r i s) = goroutines s @ [ChildFetch (Next r ! i) (ID r) (int i)]"
  "received (spawn_child r i s) = received s"
  "spawned (spawn_child r i s) = spawned s @ [(Next r ! i, ID r, int i)]"
  "fetching (spawn_child r i s) = fetching s + 1"
  "pc (spawn_child r i s) = Range r (Suc i)"
  "panicked (spawn_child r i s) = panicked s"
  "stdout (spawn_child r i s) = stdout s"
  by (simp_all add: spawn_child_def)

text \<open>Every enabled step is one of these.\<close>

lemma step_cases [consumes 1, case_names panic_message store_leaf store_node spawn range_end
    fetch_fails root_done child_done release]:
  assumes "step srv session lim ev s = Some s'"
  obtains
    r rest where "panicked s = None" "pc s = Receive" "resultsChan s = r # rest"
      "Message r \<noteq> [] \<and> Depth r \<noteq> 0" "s' = s\<lparr>panicked := Some (UnexpectedMessage (Message r))\<rparr>"
  | r rest where "panicked s = None" "pc s = Receive" "resultsChan s = r # rest"
      "\<not> (Message r \<noteq> [] \<and> Depth r \<noteq> 0)" "Secret r \<noteq> ''no''" "s' = loop_post lim (collect r rest s)"
  | r rest where "panicked s = None" "pc s = Receive" "resultsChan s = r # rest"
      "\<not> (Message r \<noteq> [] \<and> Depth r \<noteq> 0)" "Secret r = ''no''" "s' = (collect r rest s)\<lparr>pc := Range r 0\<rparr>"
  | r i where "panicked s = None" "pc s = Range r i" "i < length (Next r)" "requestsChan s < 16"
      "s' = spawn_child r i s"
  | r i where "panicked s = None" "pc s = Range r i" "\<not> i < length (Next r)" "s' = loop_post lim s"
  | k nid p i e where "panicked s = None" "pc s \<noteq> Finished" "k < length (goroutines s)"
      "args_of (goroutines s ! k) = [(nid, p, i)]" "fetchID srv nid session p i = Inl e"
      "s' = s\<lparr>panicked := Some e\<rparr>"
  | k nid r where "panicked s = None" "pc s \<noteq> Finished" "k < length (goroutines s)"
      "goroutines s ! k = RootFetch nid" "fetchID srv nid session rootID 0 = Inr r"
      "length (resultsChan s) < 8000"
      "s' = s\<lparr>resultsChan := resultsChan s @ [r], goroutines := remove_nth k (goroutines s)\<rparr>"
  | k nid p i r where "panicked s = None" "pc s \<noteq> Finished" "k < length (goroutines s)"
      "goroutines s ! k = ChildFetch nid p i" "fetchID srv nid session p i = Inr r"
      "length (resultsChan s) < 8000"
      "s' = s\<lparr>resultsChan := resultsChan s @ [r], goroutines := (goroutines s)[k := ChildRelease]\<rparr>"
  | k where "panicked s = None" "pc s \<noteq> Finished" "k < length (goroutines s)"
      "goroutines s ! k = ChildRelease" "0 < requestsChan s"
      "s' = s\<lparr>requestsChan := requestsChan s - 1, goroutines := remove_nth k (goroutines s)\<rparr>"
proof -
  from assms have np: "panicked s = None" and nf: "pc s \<noteq> Finished"
    by (auto simp: step_def split: if_splits)
  show thesis
  proof (cases ev)
    case MainStep
    with assms np nf have m: "main_step lim s = Some s'"
      by (simp add: step_def)
    show thesis
    proof (cases "pc s")
      case Receive
      with m obtain r rest where rc: "resultsChan s = r # rest"
        by (cases "resultsChan s") (auto simp: main_step_def)
      with m Receive np that(1-3) [of r rest] show thesis
        by (auto simp: main_step_def split: if_splits)
    next
      case (Range r i)
      with m np that(4,5) [of r i] show thesis
        by (auto simp: main_step_def split: if_splits)
    next
      case Finished
      with nf show thesis by simp
    qed
  next
    case (FetchDone k)
    with assms np nf have f: "fetch_done srv session k s = Some s'"
      by (simp add: step_def)
    then have k: "k < length (goroutines s)"
      by (auto simp: fetch_done_def split: if_splits)
    show thesis
    proof (cases "goroutines s ! k")
      case (RootFetch nid)
      with f k np nf that(6) [of k nid rootID 0] that(7) [of k nid] show thesis
        by (auto simp: fetch_done_def split: sum.splits if_splits)
    next
      case (ChildFetch nid p i)
      with f k np nf that(6) [of k nid p i] that(8) [of k nid p i] show thesis
        by (auto simp: fetch_done_def split: sum.splits if_splits)
    next
      case ChildRelease
      with f k show thesis
        by (simp add: fetch_done_def)
    qed
  next
    case (Released k)
    with assms np nf that(9) [of k] show thesis
      by (auto simp: step_def released_def split: if_splits)
  qed
qed

text \<open>An invariant of the steps holds after every schedule.\<close>

lemma run_invariant:
  assumes "run srv session lim evs s = Some s'" and "P s"
    and "\<And>ev s s'. P s \<Longrightarrow> step srv session lim ev s = Some s' \<Longrightarrow> P s'"
  shows "P s'"
  using assms(1,2)
proof (induction evs arbitrary: s)
  case Nil
  then show ?case by simp
next
  case (Cons ev evs)
  from Cons.prems(1) obtain s1 where s1: "step srv session lim ev s = Some s1"
    and r: "run srv session lim evs s1 = Some s'"
    by (auto split: option.splits)
  from assms(3) [OF Cons.prems(2) s1] have "P s1" .
  from Cons.IH [OF r this] show ?case .
qed

section \<open>The admission channel\<close>

lemma filter_nth_split:
  "k < length xs \<Longrightarrow>
   filter P xs = filter P (take k xs) @ (if P (xs ! k) then [xs ! k] else []) @ filter P (drop (Suc k) xs)"
  by (subst id_take_nth_drop [of k xs]) (simp_all del: append_take_drop_id)

lemma length_filter_nth_split:
  "k < length xs \<Longrightarrow>
   length (filter P xs) =
     length (filter P (take k xs)) + (if P (xs ! k) then 1 else 0) + length (filter P (drop (Suc k) xs))"
  by (simp add: filter_nth_split [of k xs P])

lemma length_filter_remove_nth:
  "length (filter P (remove_nth k xs)) = length (filter P (take k xs)) + length (filter P (drop (Suc k) xs))"
  by (simp add: remove_nth_def)

lemma length_filter_update:
  "k < length xs \<Longrightarrow>
   length (filter P (xs[k := y])) =
     length (filter P (take k xs)) + (if P y then 1 else 0) + length (filter P (drop (Suc k) xs))"
  by (simp add: upd_conv_take_nth_drop)

lemma set_remove_nth_subset: "set (remove_nth k xs) \<subseteq> set xs"
  by (auto simp: remove_nth_def dest: in_set_takeD in_set_dropD)

lemma set_update_cases: "x \<in> set (xs[k := y]) \<Longrightarrow> x = y \<or> x \<in> set xs"
  by (metis insert_iff set_update_subset_insert subsetD)


lemma length_filter_mono:
  "\<forall>g \<in> set gs. P g \<longrightarrow> Q g \<Longrightarrow> length (filter P gs) \<le> length (filter Q gs)"
  by (induction gs) (auto simp: le_SucI)

lemma inv_slots_init: "inv_slots (crawl_init nid)"
  by (simp add: inv_slots_def crawl_init_def slot_holders_def)

lemma inv_slots_step:
  assumes "inv_slots s" and "step srv session lim ev s = Some s'"
  shows "inv_slots s'"
  using assms(2)
proof (cases rule: step_cases)
  case (panic_message r rest)
  with assms(1) show ?thesis
    by (simp add: inv_slots_def slot_holders_def)
next
  case (store_leaf r rest)
  with assms(1) show ?thesis
    by (auto simp: inv_slots_def slot_holders_def)
next
  case (store_node r rest)
  with assms(1) show ?thesis
    by (auto simp: inv_slots_def slot_holders_def)
next
  case (spawn r i)
  with assms(1) show ?thesis
    by (auto simp: inv_slots_def slot_holders_def)
next
  case (range_end r i)
  with assms(1) show ?thesis
    by (auto simp: inv_slots_def slot_holders_def)
next
  case (fetch_fails k nid p i e)
  with assms(1) show ?thesis
    by (simp add: inv_slots_def slot_holders_def)
next
  case (root_done k nid r)
  have "is_root (goroutines s ! k)"
    using root_done by simp
  moreover have "goroutines s ! k \<in> set (goroutines s)"
    using nth_mem [OF root_done(3)] .
  ultimately have "\<exists>g \<in> set (goroutines s). is_root g"
    by blast
  with assms(1) have one: "length (goroutines s) = 1" and h: "requestsChan s = slot_holders s"
    and le: "requestsChan s \<le> 16"
    by (auto simp: inv_slots_def)
  from one root_done(3) have "remove_nth k (goroutines s) = []"
    by (simp add: remove_nth_def)
  moreover have "slot_holders s = length (filter holds_slot (remove_nth k (goroutines s)))"
    using root_done(4) length_filter_nth_split [OF root_done(3), of holds_slot]
    by (simp add: slot_holders_def length_filter_remove_nth)
  ultimately show ?thesis
    using root_done h le by (simp add: inv_slots_def slot_holders_def)
next
  case (child_done k nid p i r)
  have in_set: "goroutines s ! k \<in> set (goroutines s)"
    using nth_mem [OF child_done(3)] .
  have no_root: "\<not> (\<exists>g \<in> set (goroutines s). is_root g)"
  proof
    assume "\<exists>g \<in> set (goroutines s). is_root g"
    with assms(1) have "length (goroutines s) = 1"
      by (simp add: inv_slots_def)
    then obtain g where "goroutines s = [g]"
      by (cases "goroutines s") auto
    with \<open>\<exists>g \<in> set (goroutines s). is_root g\<close> in_set child_done(4) show False
      by auto
  qed
  have "\<not> (\<exists>g \<in> set ((goroutines s)[k := ChildRelease]). is_root g)"
    using no_root by (auto dest: set_update_cases)
  moreover have "length (filter holds_slot ((goroutines s)[k := ChildRelease])) = slot_holders s"
    using child_done(4) length_filter_nth_split [OF child_done(3), of holds_slot]
    by (simp add: slot_holders_def length_filter_update [OF child_done(3)])
  ultimately show ?thesis
    using child_done assms(1) by (simp add: inv_slots_def slot_holders_def)
next
  case (release k)
  have "\<not> (\<exists>g \<in> set (remove_nth k (goroutines s)). is_root g) \<or> (\<exists>g \<in> set (goroutines s). is_root g)"
    using set_remove_nth_subset [of k "goroutines s"] by blast
  moreover have "(\<exists>g \<in> set (goroutines s). is_root g) \<Longrightarrow> False"
  proof -
    assume a: "\<exists>g \<in> set (goroutines s). is_root g"
    with assms(1) have "length (goroutines s) = 1"
      by (simp add: inv_slots_def)
    then obtain g where "goroutines s = [g]"
      by (cases "goroutines s") auto
    with a release(3,4) show False
      by auto
  qed
  moreover have "length (filter holds_slot (remove_nth k (goroutines s))) = slot_holders s - 1"
    using release(4) length_filter_nth_split [OF release(3), of holds_slot]
    by (simp add: slot_holders_def length_filter_remove_nth)
  ultimately show ?thesis
    using release assms(1) by (auto simp: inv_slots_def slot_holders_def)
qed

lemma inv_slots_crawl:
  assumes "crawl srv nid session lim evs = Some s"
  shows "inv_slots s"
  using assms inv_slots_init inv_slots_step unfolding crawl_def
  by (rule run_invariant [where P = inv_slots])

lemma in_flight_le_slots:
  assumes "inv_slots s"
  shows "in_flight s \<le> 16"
proof (cases "\<exists>g \<in> set (goroutines s). is_root g")
  case True
  with assms have "length (goroutines s) = 1"
    by (simp add: inv_slots_def)
  moreover have "in_flight s \<le> length (goroutines s)"
    by (simp add: in_flight_def)
  ultimately show ?thesis by simp
next
  case False
  then have "\<forall>g \<in> set (goroutines s). is_fetch g \<longrightarrow> holds_slot g"
    by (metis holds_slot.elims(3) is_root.simps(1))
  then have "length (filter is_fetch (goroutines s)) \<le> length (filter holds_slot (goroutines s))"
    by (rule length_filter_mono)
  with assms show ?thesis
    by (simp add: inv_slots_def in_flight_def slot_holders_def)
qed

text \<open>
  C6, as amended. In every state of every schedule at most 16 fetches are in flight. Every
  closure of the range loop holds a value of \<^verbatim>\<open>requestsChan\<close>, sent by the loop before
  the closure starts and received by the closure after its \<^verbatim>\<open>fetchID\<close> has returned, and
  the channel never holds more than 16 values. The root fetch sends none; it is in flight
  only while there is no other goroutine.
\<close>

theorem in_flight_never_exceeds_cap:
  assumes "crawl srv nid session lim evs = Some s"
  shows "in_flight s \<le> 16 \<and> slot_holders s = requestsChan s \<and> requestsChan s \<le> 16 \<and>
         (\<forall>g \<in> set (goroutines s). is_root g \<longrightarrow> goroutines s = [g])"
proof -
  have inv: "inv_slots s"
    using inv_slots_crawl [OF assms] .
  have "goroutines s = [g]" if "g \<in> set (goroutines s)" and "is_root g" for g
  proof -
    from inv that have "length (goroutines s) = 1"
      by (auto simp: inv_slots_def)
    then obtain g' where "goroutines s = [g']"
      by (cases "goroutines s") auto
    with that(1) show ?thesis by simp
  qed
  with inv in_flight_le_slots [OF inv] show ?thesis
    by (simp add: inv_slots_def)
qed

theorem in_flight_never_exceeds_cap_witness:
  "\<exists>s. crawl srv_two ''start'' ''s'' 10 [FetchDone 0, MainStep, MainStep, MainStep] = Some s \<and>
       in_flight s = 2 \<and> requestsChan s = 2 \<and> in_flight s \<le> 16 \<and> slot_holders s = requestsChan s"
proof -
  have "map_option (\<lambda>s. (in_flight s, requestsChan s))
          (crawl srv_two ''start'' ''s'' 10 [FetchDone 0, MainStep, MainStep, MainStep]) = Some (2, 2)"
    by code_simp
  then obtain s where s: "crawl srv_two ''start'' ''s'' 10 [FetchDone 0, MainStep, MainStep, MainStep] = Some s"
    and v: "in_flight s = 2" "requestsChan s = 2"
    by auto
  from in_flight_never_exceeds_cap [OF s] s v show ?thesis
    by simp
qed

text \<open>
  The claim as stated fails for the root fetch: \<^verbatim>\<open>go fetchID(id, session, rootID, 0)\<close>
  starts it with no send to \<^verbatim>\<open>requestsChan\<close>, so at the start of the traversal one
  fetch is in flight and no slot is taken.
\<close>

theorem root_fetch_takes_no_slot:
  "map_option (\<lambda>s. (in_flight s, requestsChan s, slot_holders s, goroutines s))
     (crawl srv_two ''start'' ''s'' 10 []) = Some (1, 0, 0, [RootFetch ''start''])"
  by code_simp

section \<open>What the loop stores and starts\<close>



















section \<open>The counter of the loop\<close>












section \<open>Lineage\<close>









section \<open>The loop of crawl\<close>

text \<open>
  C5, as amended. The loop aborts on a received response exactly when the response has a
  non-empty \<^verbatim>\<open>Message\<close> and a \<^verbatim>\<open>Depth\<close> other than 0, the depth being the one the
  body reports (0 when it reports none). Whether the response is the first one received
  plays no part: the state \<open>s\<close> is any state at the receive.
\<close>

theorem abort_iff_message_and_depth:
  assumes "panicked s = None" and "pc s = Receive" and "resultsChan s = r # rest"
  shows "\<exists>s'. step srv session lim MainStep s = Some s' \<and>
           ((\<exists>m. panicked s' = Some (UnexpectedMessage m)) \<longleftrightarrow> (Message r \<noteq> [] \<and> Depth r \<noteq> 0))"
proof (cases "Message r \<noteq> [] \<and> Depth r \<noteq> 0")
  case True
  with assms show ?thesis
    by (simp add: step_def main_step_def)
next
  case False
  have "panicked (loop_post lim (collect r rest s)) \<noteq> Some (UnexpectedMessage m)" for m
    using assms(1) by (simp add: loop_post_panicked)
  with False assms show ?thesis
    by (auto simp: step_def main_step_def)
qed

theorem abort_iff_message_and_depth_witness:
  "\<exists>s r. crawl srv_message_on_root ''start'' ''s'' 10 [FetchDone 0] = Some s \<and>
     panicked s = None \<and> pc s = Receive \<and> resultsChan s = [r] \<and> received s = [] \<and>
     Message r = ''hi'' \<and> Depth r = 1 \<and>
     (\<exists>s'. step srv_message_on_root ''s'' 10 MainStep s = Some s' \<and>
        (\<exists>m. panicked s' = Some (UnexpectedMessage m)))"
proof -
  have "map_option (\<lambda>s. (panicked s, pc s, map (\<lambda>r. (Message r, Depth r)) (resultsChan s), received s))
          (crawl srv_message_on_root ''start'' ''s'' 10 [FetchDone 0]) =
        Some (None, Receive, [(''hi'', 1)], [])"
    by code_simp
  then obtain s r where s: "crawl srv_message_on_root ''start'' ''s'' 10 [FetchDone 0] = Some s"
    and f: "panicked s = None" "pc s = Receive" "resultsChan s = [r]" "received s = []"
      "Message r = ''hi''" "Depth r = 1"
    by auto
  from abort_iff_message_and_depth [OF f(1) f(2) f(3), of srv_message_on_root "''s''" 10] f(5,6)
  have "\<exists>s'. step srv_message_on_root ''s'' 10 MainStep s = Some s' \<and>
          (\<exists>m. panicked s' = Some (UnexpectedMessage m))"
    by auto
  with s f show ?thesis
    by blast
qed

text \<open>
  The claim as stated fails both ways. A message on the second response received, with
  no depth in the body, does not abort the traversal, which prints its output; and a
  message on the very first response, with depth 1, aborts it.
\<close>

theorem abort_not_decided_by_first_result:
  "map_option (\<lambda>s. (panicked s, pc s, stdout s, map Message (received s)))
     (crawl srv_message_on_child ''start'' ''s'' 10 evs_one_child) =
     Some (None, Finished, ''x'', [[], ''hello'']) \<and>
   map_option (\<lambda>s. (panicked s, received s))
     (crawl srv_message_on_root ''start'' ''s'' 10 [FetchDone 0, MainStep]) =
     Some (Some (UnexpectedMessage ''hi''), [])"
  by code_simp






section \<open>The walk\<close>

lemma sublist_trans: "sublist xs ys \<Longrightarrow> sublist ys zs \<Longrightarrow> sublist xs zs"
  by (rule sublist_order.order_trans)

lemma sublist_appendL: "sublist xs ys \<Longrightarrow> sublist xs (zs @ ys)"
  by (metis sublist_append_leftI sublist_trans)

lemma sublist_appendR: "sublist xs ys \<Longrightarrow> sublist xs (ys @ zs)"
  by (metis sublist_append_rightI sublist_trans)


lemma range_loop_all_return:
  "\<forall>x \<in> set xs. snd (f x) \<Longrightarrow> range_loop f xs = (concat (map (\<lambda>x. fst (f x)) xs), True)"
proof (induction xs)
  case Nil
  then show ?case by simp
next
  case (Cons y ys)
  then obtain a where a: "f y = (a, True)"
    and b: "range_loop f ys = (concat (map (\<lambda>x. fst (f x)) ys), True)"
    by (cases "f y") auto
  then show ?case
    by simp
qed












section \<open>Leaves\<close>







section \<open>Sibling order\<close>














section \<open>Scheduling the children\<close>



















section \<open>Internal nodes\<close>




section \<open>A body without a fragment\<close>






end
